theory Spec2Isabelle
  imports Main
begin

section \<open>The workflow store of \<open>aiida/orm/workflow.py\<close>\<close>

text \<open>
  \<open>Workflow\<close> is a thin object around a database row (\<open>dbworkflowinstance\<close>); its methods
  read and write three tables: workflows, workflow steps and calculations. The tables are
  the state that the methods below pass along. Rows are addressed by key (the uuid of a
  workflow, the pk of a calculation); foreign keys always denote a row, so the workflow and
  calculation tables are total in the key. The step table keeps its rows in a list, the
  many-to-many links of a step (\<open>calculations\<close>, \<open>sub_workflows\<close>) are the lists a query on
  them returns.
\<close>

type_synonym uuid = nat
type_synonym calc_pk = nat

text \<open>
  The report of a workflow is a text column, which the database layer hands out as unicode
  text: a sequence of code points.
\<close>

type_synonym unicode = "nat list"

text \<open>
  Modelled from the spec: the enumerations \<open>wf_states\<close> and \<open>calc_states\<close> of
  \<open>aiida.common.datastructures\<close> are imported by the source and not part of it. A workflow
  or step status is one of CREATED, RUNNING, FINISHED; a calculation is in one of the six
  lifecycle states, of which FINISHED, EXCEPTED and KILLED are terminal.
\<close>

datatype wf_states = wf_CREATED | wf_RUNNING | wf_FINISHED

datatype calc_states =
  calc_CREATED | calc_WAITING | calc_RUNNING | calc_FINISHED | calc_EXCEPTED | calc_KILLED

record DbWorkflow =
  status :: wf_states
  report :: unicode

record DbWorkflowStep =
  name :: string
  parent :: uuid
  step_status :: wf_states
  nextcall :: "string option"
  calculations :: "calc_pk list"
  sub_workflows :: "uuid list"

record db =
  workflows :: "uuid \<Rightarrow> DbWorkflow"
  steps :: "DbWorkflowStep list"
  calc_state :: "calc_pk \<Rightarrow> calc_states"

datatype error =
  InternalError string
| MultipleObjectsReturned

subsection \<open>Steps\<close>

definition WF_STEP_EXIT :: string where
  "WF_STEP_EXIT = ''exit''"

text \<open>\<open>DbWorkflow.set_status\<close>: the row's status column is overwritten.\<close>

definition set_status :: "uuid \<Rightarrow> wf_states \<Rightarrow> db \<Rightarrow> db" where
  "set_status w st d = d\<lparr>workflows := (workflows d)(w := (workflows d w)\<lparr>status := st\<rparr>)\<rparr>"

text \<open>
  \<open>Workflow.get_steps\<close>: all steps of the workflow, or those of them in the given status.
\<close>

definition get_steps :: "db \<Rightarrow> uuid \<Rightarrow> wf_states option \<Rightarrow> DbWorkflowStep list" where
  "get_steps d w state =
     (case state of
        None \<Rightarrow> filter (\<lambda>s. parent s = w) (steps d)
      | Some st \<Rightarrow> filter (\<lambda>s. parent s = w \<and> step_status s = st) (steps d))"

text \<open>
  \<open>Workflow.get_step\<close>. The reserved name is refused before the table is touched.
  Otherwise \<open>steps.get_or_create(name=...)\<close> returns the one step of the workflow with
  that name, creates it (a new row, appended) when there is none, and raises
  \<open>MultipleObjectsReturned\<close> when several rows match. The result is paired with the store
  after the call. The argument is the name, which the source takes from a string or from
  the \<open>__name__\<close> of a method; the user column, always the automatic user, is left out. The
  columns of a new row other than name and workflow have their defaults, here status
  CREATED, no next call, no calculations and no sub-workflows.
\<close>

definition new_step :: "uuid \<Rightarrow> string \<Rightarrow> DbWorkflowStep" where
  "new_step w method_name =
     \<lparr>name = method_name, parent = w, step_status = wf_CREATED, nextcall = None,
      calculations = [], sub_workflows = []\<rparr>"

definition get_step :: "uuid \<Rightarrow> string \<Rightarrow> db \<Rightarrow> (error + DbWorkflowStep) \<times> db" where
  "get_step w method_name d =
     (if method_name = WF_STEP_EXIT then
        (Inl (InternalError (''Cannot query a step with name '' @ method_name @ '', reserved string'')), d)
      else
        (case filter (\<lambda>s. name s = method_name) (get_steps d w None) of
           [] \<Rightarrow> (Inr (new_step w method_name), d\<lparr>steps := steps d @ [new_step w method_name]\<rparr>)
         | [s] \<Rightarrow> (Inr s, d)
         | _ \<Rightarrow> (Inl MultipleObjectsReturned, d)))"

subsection \<open>Killing a workflow\<close>

text \<open>
  \<open>Workflow.kill_step_calculations\<close>: every calculation of the step is set to
  \<open>calc_states.FINISHED\<close>.

  Modelled from the spec: the methods of the rows that the source calls
  (\<open>step.get_calculations\<close>, \<open>step.get_sub_workflows\<close>, \<open>Calculation._set_state\<close>) are not
  part of it. A step owns its calculations and sub-workflows, which the first two list;
  forcing a calculation to a state overwrites its state.
\<close>

definition set_calc_state :: "calc_states \<Rightarrow> calc_pk \<Rightarrow> db \<Rightarrow> db" where
  "set_calc_state st c d = d\<lparr>calc_state := (calc_state d)(c := st)\<rparr>"

definition kill_step_calculations :: "DbWorkflowStep \<Rightarrow> db \<Rightarrow> db" where
  "kill_step_calculations step d = fold (set_calc_state calc_FINISHED) (calculations step) d"

text \<open>
  A loop whose body may fail to return: the store is threaded through the elements, and
  the loop has no result as soon as one element has none.
\<close>

fun fold_opt :: "('a \<Rightarrow> 's \<Rightarrow> 's option) \<Rightarrow> 'a list \<Rightarrow> 's \<Rightarrow> 's option" where
  "fold_opt f [] s = Some s"
| "fold_opt f (x # xs) s = (case f x s of None \<Rightarrow> None | Some s' \<Rightarrow> fold_opt f xs s')"

text \<open>
  \<open>Workflow.kill\<close>: for each step of the workflow in status RUNNING, the calculations of
  the step are finished and each sub-workflow of the step is killed in turn; at the end
  the workflow's own status is set to FINISHED. The recursion follows the links stored in
  the step table, which nothing forces to be free of cycles, so the model counts the depth
  of recursion still allowed: \<open>None\<close> says that the call did not return within it.
\<close>

fun kill :: "nat \<Rightarrow> uuid \<Rightarrow> db \<Rightarrow> db option" where
  "kill 0 w d = None"
| "kill (Suc n) w d =
     (case fold_opt
             (\<lambda>s d1. fold_opt (kill n) (sub_workflows s) (kill_step_calculations s d1))
             (get_steps d w (Some wf_RUNNING)) d of
        None \<Rightarrow> None
      | Some d' \<Rightarrow> Some (set_status w wf_FINISHED d'))"

subsection \<open>Reports\<close>







definition db_clear_report :: "unicode \<Rightarrow> unicode" where
  "db_clear_report rep = []"

definition set_report :: "uuid \<Rightarrow> unicode \<Rightarrow> db \<Rightarrow> db" where
  "set_report w rep d = d\<lparr>workflows := (workflows d)(w := (workflows d w)\<lparr>report := rep\<rparr>)\<rparr>"

text \<open>
  \<open>dbworkflowinstance.parent_workflow_step\<close> is the reverse side of the \<open>sub_workflows\<close>
  link: the steps that have the workflow among their sub-workflows. \<open>.all()\<close> lists them,
  \<open>.get()\<close> returns the only one and raises \<open>MultipleObjectsReturned\<close> when there are more.
\<close>

definition parent_workflow_step :: "db \<Rightarrow> uuid \<Rightarrow> DbWorkflowStep list" where
  "parent_workflow_step d w = filter (\<lambda>s. w \<in> set (sub_workflows s)) (steps d)"


fun clear_report :: "nat \<Rightarrow> uuid \<Rightarrow> db \<Rightarrow> (error + db) option" where
  "clear_report 0 w d = None"
| "clear_report (Suc n) w d =
     (case parent_workflow_step d w of
        [] \<Rightarrow> Some (Inr (set_report w (db_clear_report (report (workflows d w))) d))
      | [s] \<Rightarrow> clear_report n (parent s) d
      | _ \<Rightarrow> Some (Inl MultipleObjectsReturned))"


section \<open>The commands of \<open>aiida/cmdline/commands/cmd_work.py\<close>\<close>

subsection \<open>The subtree of a work calculation\<close>

text \<open>
  \<open>get_subtree\<close> inside \<open>work_report\<close>. The query for the work calculations that are outputs
  of the one with the given pk is the parameter \<open>called\<close>; the result is the pair of the pk
  and its level, followed by the subtrees of the called calculations one level deeper, in
  the order of the query. Nothing in the function guards against a cycle of calls, so the
  depth of the recursion is bounded as above.
\<close>

fun get_subtree :: "(nat \<Rightarrow> nat list) \<Rightarrow> nat \<Rightarrow> nat \<Rightarrow> nat \<Rightarrow> (nat \<times> nat) list option" where
  "get_subtree called 0 pk level = None"
| "get_subtree called (Suc n) pk level =
     (case those (map (\<lambda>subpk. get_subtree called n subpk (level + 1)) (called pk)) of
        None \<Rightarrow> None
      | Some subtrees \<Rightarrow> Some ([(pk, level)] @ concat subtrees))"

subsection \<open>Kill, pause and play\<close>

text \<open>
  A calculation given on the command line, as far as the three commands read it.
\<close>

record calculation =
  pk :: nat
  is_terminated :: bool

text \<open>
  Modelled from the spec: the control panel (\<open>aiida.work.new_blocking_control_panel\<close>) is
  imported by the source and not part of it. Each of \<open>kill_process\<close>, \<open>pause_process\<close> and
  \<open>play_process\<close> publishes one command for the target and blocks for the reply: it returns
  whether the remote side accepted, or raises. The panel is a parameter: its answer may
  depend on the command and on all commands published before.
\<close>

datatype kind = KILL | PAUSE | PLAY

type_synonym command = "kind \<times> nat"

datatype exn = RemoteException | DeliveryFailed | OtherException

datatype reply = Returns bool | Raises exn string

type_synonym control_panel = "command list \<Rightarrow> command \<Rightarrow> reply"

text \<open>
  What a command leaves behind: the lines it echoed, each with the utility that printed it
  and the message as template text around the pk, and the commands it published. A command
  ends by returning, by \<open>sys.exit\<close>, or with an exception that no handler caught.
\<close>

datatype level = Success | Error | Critical

type_synonym echo_line = "level \<times> string \<times> nat \<times> string"

record session =
  echoed :: "echo_line list"
  published :: "command list"

datatype ending = Returned | SystemExit | Uncaught exn

definition echo :: "level \<Rightarrow> string \<Rightarrow> nat \<Rightarrow> string \<Rightarrow> session \<Rightarrow> session" where
  "echo lv before n after s = s\<lparr>echoed := echoed s @ [(lv, before, n, after)]\<rparr>"

definition publish :: "command \<Rightarrow> session \<Rightarrow> session" where
  "publish c s = s\<lparr>published := published s @ [c]\<rparr>"

definition caught :: "exn \<Rightarrow> bool" where
  "caught e \<longleftrightarrow> e = RemoteException \<or> e = DeliveryFailed"

text \<open>
  \<open>work_kill\<close> and \<open>work_pause\<close>: a terminated calculation is reported and skipped; for any
  other the panel is asked, and the answer, or a \<open>RemoteException\<close> or \<open>DeliveryFailed\<close>, is
  echoed before the loop goes on. Another exception leaves the loop.
\<close>

fun work_kill :: "control_panel \<Rightarrow> calculation list \<Rightarrow> session \<Rightarrow> ending \<times> session" where
  "work_kill cp [] s = (Returned, s)"
| "work_kill cp (c # cs) s =
     (if is_terminated c then
        work_kill cp cs (echo Error ''Calculation<'' (pk c) ''> is already terminated'' s)
      else
        (case cp (published s) (KILL, pk c) of
           Returns ok \<Rightarrow>
             (if ok then
                work_kill cp cs
                  (echo Success ''killed Calculation<'' (pk c) ''>'' (publish (KILL, pk c) s))
              else
                work_kill cp cs
                  (echo Error ''problem killing Calculation<'' (pk c) ''>'' (publish (KILL, pk c) s)))
         | Raises e message \<Rightarrow>
             (if caught e then
                work_kill cp cs
                  (echo Error ''failed to kill Calculation<'' (pk c) (''>: '' @ message)
                     (publish (KILL, pk c) s))
              else (Uncaught e, publish (KILL, pk c) s))))"

fun work_pause :: "control_panel \<Rightarrow> calculation list \<Rightarrow> session \<Rightarrow> ending \<times> session" where
  "work_pause cp [] s = (Returned, s)"
| "work_pause cp (c # cs) s =
     (if is_terminated c then
        work_pause cp cs (echo Error ''Calculation<'' (pk c) ''> is already terminated'' s)
      else
        (case cp (published s) (PAUSE, pk c) of
           Returns ok \<Rightarrow>
             (if ok then
                work_pause cp cs
                  (echo Success ''paused Calculation<'' (pk c) ''>'' (publish (PAUSE, pk c) s))
              else
                work_pause cp cs
                  (echo Error ''problem pausing Calculation<'' (pk c) ''>'' (publish (PAUSE, pk c) s)))
         | Raises e message \<Rightarrow>
             (if caught e then
                work_pause cp cs
                  (echo Error ''failed to pause Calculation<'' (pk c) (''>: '' @ message)
                     (publish (PAUSE, pk c) s))
              else (Uncaught e, publish (PAUSE, pk c) s))))"

text \<open>
  \<open>work_play\<close> has the same shape, and reports a refusal and a caught exception with
  \<open>echo.echo_critical\<close>. The echo utilities are imported and not part of the source;
  \<open>echo_critical\<close> is the one of them that, after printing, ends the command with
  \<open>sys.exit\<close>. Whether it does is the parameter \<open>critical_exits\<close>.
\<close>

definition echo_critical ::
  "bool \<Rightarrow> string \<Rightarrow> nat \<Rightarrow> string \<Rightarrow> session \<Rightarrow> (session \<Rightarrow> ending \<times> session) \<Rightarrow> ending \<times> session"
where
  "echo_critical critical_exits before n after s continue =
     (if critical_exits then (SystemExit, echo Critical before n after s)
      else continue (echo Critical before n after s))"

fun work_play ::
  "bool \<Rightarrow> control_panel \<Rightarrow> calculation list \<Rightarrow> session \<Rightarrow> ending \<times> session"
where
  "work_play critical_exits cp [] s = (Returned, s)"
| "work_play critical_exits cp (c # cs) s =
     (if is_terminated c then
        work_play critical_exits cp cs
          (echo Error ''Calculation<'' (pk c) ''> is already terminated'' s)
      else
        (case cp (published s) (PLAY, pk c) of
           Returns ok \<Rightarrow>
             (if ok then
                work_play critical_exits cp cs
                  (echo Success ''played Calculation<'' (pk c) ''>'' (publish (PLAY, pk c) s))
              else
                echo_critical critical_exits ''problem playing Calculation<'' (pk c) ''>''
                  (publish (PLAY, pk c) s) (work_play critical_exits cp cs))
         | Raises e message \<Rightarrow>
             (if caught e then
                echo_critical critical_exits
                  ''failed to play Calculation<'' (pk c) (''>: '' @ message)
                  (publish (PLAY, pk c) s) (work_play critical_exits cp cs)
              else (Uncaught e, publish (PLAY, pk c) s))))"

section \<open>Specification\<close>

subsection \<open>What a kill reaches\<close>

text \<open>
  The links that \<open>kill\<close> follows lead from a workflow to the sub-workflows of its RUNNING
  steps. \<open>kill_visits d w\<close> are the workflows on which \<open>kill\<close> is called when it is called
  on \<open>w\<close>, \<open>kill_calcs d w\<close> the calculations of the RUNNING steps of those workflows.
\<close>

definition running_child :: "db \<Rightarrow> (uuid \<times> uuid) set" where
  "running_child d =
     {(w, c). \<exists>s \<in> set (get_steps d w (Some wf_RUNNING)). c \<in> set (sub_workflows s)}"

definition kill_visits :: "db \<Rightarrow> uuid \<Rightarrow> uuid set" where
  "kill_visits d w = (running_child d)\<^sup>* `` {w}"

definition kill_calcs :: "db \<Rightarrow> uuid \<Rightarrow> calc_pk set" where
  "kill_calcs d w =
     {c. \<exists>v \<in> kill_visits d w. \<exists>s \<in> set (get_steps d v (Some wf_RUNNING)). c \<in> set (calculations s)}"

text \<open>
  The ownership links of the tree, whatever the status of the step: from a workflow to the
  sub-workflows of its steps. \<open>subtree d v\<close> is \<open>v\<close> with all workflows beneath it. In a
  tree a workflow is the sub-workflow of one step at most and a calculation belongs to one
  step at most.
\<close>

definition child :: "db \<Rightarrow> (uuid \<times> uuid) set" where
  "child d = {(w, c). \<exists>s \<in> set (get_steps d w None). c \<in> set (sub_workflows s)}"

definition subtree :: "db \<Rightarrow> uuid \<Rightarrow> uuid set" where
  "subtree d v = (child d)\<^sup>* `` {v}"

definition single_parent :: "db \<Rightarrow> bool" where
  "single_parent d \<longleftrightarrow>
     (\<forall>s \<in> set (steps d). \<forall>t \<in> set (steps d). \<forall>c \<in> set (sub_workflows s).
        c \<in> set (sub_workflows t) \<longrightarrow> s = t)"

definition exclusive_calcs :: "db \<Rightarrow> bool" where
  "exclusive_calcs d \<longleftrightarrow>
     (\<forall>s \<in> set (steps d). \<forall>t \<in> set (steps d). \<forall>c \<in> set (calculations s).
        c \<in> set (calculations t) \<longrightarrow> s = t)"

text \<open>
  Three relations between the store before and after: \<open>towards_finished\<close> (no step row
  changes; a calculation and a workflow row change, if at all, to FINISHED),
  \<open>unchanged_outside\<close> (nothing changes outside the given calculations and workflows) and
  \<open>all_finished\<close> (the given calculations and workflows are FINISHED).
\<close>

definition towards_finished :: "db \<Rightarrow> db \<Rightarrow> bool" where
  "towards_finished d d' \<longleftrightarrow>
     steps d' = steps d \<and>
     (\<forall>c. calc_state d' c = calc_state d c \<or> calc_state d' c = calc_FINISHED) \<and>
     (\<forall>v. workflows d' v = workflows d v \<or> workflows d' v = (workflows d v)\<lparr>status := wf_FINISHED\<rparr>)"

definition unchanged_outside :: "calc_pk set \<Rightarrow> uuid set \<Rightarrow> db \<Rightarrow> db \<Rightarrow> bool" where
  "unchanged_outside C W d d' \<longleftrightarrow>
     (\<forall>c. c \<notin> C \<longrightarrow> calc_state d' c = calc_state d c) \<and>
     (\<forall>v. v \<notin> W \<longrightarrow> workflows d' v = workflows d v)"

definition all_finished :: "calc_pk set \<Rightarrow> uuid set \<Rightarrow> db \<Rightarrow> bool" where
  "all_finished C W d \<longleftrightarrow>
     (\<forall>c \<in> C. calc_state d c = calc_FINISHED) \<and> (\<forall>v \<in> W. status (workflows d v) = wf_FINISHED)"

definition bounded_change :: "calc_pk set \<Rightarrow> uuid set \<Rightarrow> db \<Rightarrow> db \<Rightarrow> bool" where
  "bounded_change C W d d' \<longleftrightarrow> towards_finished d d' \<and> unchanged_outside C W d d'"

text \<open>What is read from the store once \<open>kill\<close> has returned.\<close>

definition calc_state_after_kill :: "nat \<Rightarrow> uuid \<Rightarrow> db \<Rightarrow> calc_pk \<Rightarrow> calc_states option" where
  "calc_state_after_kill n w d c = map_option (\<lambda>d'. calc_state d' c) (kill n w d)"

definition status_after_kill :: "nat \<Rightarrow> uuid \<Rightarrow> db \<Rightarrow> uuid \<Rightarrow> wf_states option" where
  "status_after_kill n w d v = map_option (\<lambda>d'. status (workflows d' v)) (kill n w d)"

definition step_statuses_after_kill :: "nat \<Rightarrow> uuid \<Rightarrow> db \<Rightarrow> wf_states list option" where
  "step_statuses_after_kill n w d = map_option (\<lambda>d'. map step_status (steps d')) (kill n w d)"

subsection \<open>The root of a workflow\<close>








subsection \<open>Pre-order listing of a call tree\<close>

text \<open>
  The spec's subtree listing is the pre-order sequence of a tree of calls, each node with
  its depth. \<open>is_call_tree called t\<close> says that \<open>t\<close> is the tree that the calls below its
  root unfold to; such a tree exists exactly when no cycle of calls is reachable from the
  root.
\<close>

datatype call_tree = Node nat "call_tree list"

fun root :: "call_tree \<Rightarrow> nat" where
  "root (Node p ts) = p"

fun height :: "call_tree \<Rightarrow> nat" where
  "height (Node p ts) = Suc (foldr max (map height ts) 0)"

fun preorder :: "nat \<Rightarrow> call_tree \<Rightarrow> (nat \<times> nat) list" where
  "preorder depth (Node p ts) = (p, depth) # concat (map (preorder (Suc depth)) ts)"

fun is_call_tree :: "(nat \<Rightarrow> nat list) \<Rightarrow> call_tree \<Rightarrow> bool" where
  "is_call_tree called (Node p ts) \<longleftrightarrow>
     map root ts = called p \<and> (\<forall>t \<in> set ts. is_call_tree called t)"

section \<open>Examples\<close>

text \<open>
  A root workflow 0 whose RUNNING step owns calculation 10 and sub-workflow 1, whose RUNNING
  step owns calculation 11 and sub-workflow 2, whose RUNNING step owns calculation 12:
  three RUNNING steps across two nested sub-workflows.
\<close>

definition running_step :: "uuid \<Rightarrow> calc_pk list \<Rightarrow> uuid list \<Rightarrow> DbWorkflowStep" where
  "running_step w cs ws =
     \<lparr>name = ''start'', parent = w, step_status = wf_RUNNING, nextcall = None,
      calculations = cs, sub_workflows = ws\<rparr>"

definition finished_step :: "uuid \<Rightarrow> calc_pk list \<Rightarrow> uuid list \<Rightarrow> DbWorkflowStep" where
  "finished_step w cs ws =
     \<lparr>name = ''init'', parent = w, step_status = wf_FINISHED, nextcall = Some ''start'',
      calculations = cs, sub_workflows = ws\<rparr>"

definition store_of :: "DbWorkflowStep list \<Rightarrow> db" where
  "store_of ss =
     \<lparr>workflows = (\<lambda>w. \<lparr>status = wf_RUNNING, report = []\<rparr>), steps = ss,
      calc_state = (\<lambda>c. calc_RUNNING)\<rparr>"

definition nested_db :: db where
  "nested_db = store_of [running_step 0 [10] [1], running_step 1 [11] [2], running_step 2 [12] []]"

text \<open>
  The same tree with one more step of the root that is FINISHED, and owns calculation 13
  and sub-workflow 3, whose RUNNING step owns calculation 14.
\<close>

definition branch_db :: db where
  "branch_db =
     store_of [running_step 0 [10] [1], running_step 1 [11] [2], running_step 2 [12] [],
               finished_step 0 [13] [3], running_step 3 [14] []]"

text \<open>A chain of four workflows: workflow 3 is three levels below the root 0.\<close>

definition deep_db :: db where
  "deep_db = store_of [running_step 0 [] [1], running_step 1 [] [2], running_step 2 [] [3]]"






text \<open>Work calculation 1 called 2, which called 3.\<close>

definition chain_calls :: "nat \<Rightarrow> nat list" where
  "chain_calls p = (if p = 1 then [2] else if p = 2 then [3] else [])"

text \<open>
  Two calculations that are not terminated, one that is, and a control panel without a
  listener for calculation 1: its commands raise \<open>DeliveryFailed\<close>, all others succeed.
\<close>

definition live :: "nat \<Rightarrow> calculation" where
  "live n = \<lparr>pk = n, is_terminated = False\<rparr>"

definition terminated :: "nat \<Rightarrow> calculation" where
  "terminated n = \<lparr>pk = n, is_terminated = True\<rparr>"

definition no_listener_for_1 :: control_panel where
  "no_listener_for_1 history c = (if snd c = 1 then Raises DeliveryFailed ''no listener'' else Returns True)"

definition fresh :: session where
  "fresh = \<lparr>echoed = [], published = []\<rparr>"

text \<open>
  A control panel that answers every command: it returns, or raises one of the two
  exceptions that the commands handle.
\<close>

definition answers :: "control_panel \<Rightarrow> bool" where
  "answers cp \<longleftrightarrow> (\<forall>h c e m. cp h c = Raises e m \<longrightarrow> caught e)"

text \<open>
  The commands print with three utilities: \<open>echo_success\<close> for a command that was carried
  out, \<open>echo_error\<close> and \<open>echo_critical\<close> for one that was not (the panel refused, or raised
  an exception that was caught). A line reports a failure when one of the latter two
  printed it.
\<close>

definition failure_report :: "echo_line \<Rightarrow> bool" where
  "failure_report l \<longleftrightarrow> fst l = Error \<or> fst l = Critical"

section \<open>Verification\<close>

subsection \<open>Relations between stores\<close>

lemma towards_finished_refl: "towards_finished d d"
  by (simp add: towards_finished_def)

lemma towards_finished_trans:
  assumes ab: "towards_finished a b" and bc: "towards_finished b c"
  shows "towards_finished a c"
proof -
  have st: "steps c = steps a"
    using ab bc by (simp add: towards_finished_def)
  have cs: "calc_state c x = calc_state a x \<or> calc_state c x = calc_FINISHED" for x
  proof -
    from ab have 1: "calc_state b x = calc_state a x \<or> calc_state b x = calc_FINISHED"
      by (simp add: towards_finished_def)
    from bc have 2: "calc_state c x = calc_state b x \<or> calc_state c x = calc_FINISHED"
      by (simp add: towards_finished_def)
    from 1 2 show ?thesis by auto
  qed
  have ws: "workflows c v = workflows a v \<or>
            workflows c v = (workflows a v)\<lparr>status := wf_FINISHED\<rparr>" for v
  proof -
    from ab have 1: "workflows b v = workflows a v \<or>
        workflows b v = (workflows a v)\<lparr>status := wf_FINISHED\<rparr>"
      by (simp add: towards_finished_def)
    from bc have 2: "workflows c v = workflows b v \<or>
        workflows c v = (workflows b v)\<lparr>status := wf_FINISHED\<rparr>"
      by (simp add: towards_finished_def)
    from 1 2 show ?thesis by auto
  qed
  show ?thesis
    unfolding towards_finished_def using st cs ws by blast
qed

lemma unchanged_outside_refl: "unchanged_outside C W d d"
  by (simp add: unchanged_outside_def)

lemma unchanged_outside_trans: "unchanged_outside C W a b \<Longrightarrow> unchanged_outside C W b c \<Longrightarrow> unchanged_outside C W a c"
  by (simp add: unchanged_outside_def)

lemma unchanged_outside_mono: "unchanged_outside C W a b \<Longrightarrow> C \<subseteq> C' \<Longrightarrow> W \<subseteq> W' \<Longrightarrow> unchanged_outside C' W' a b"
  by (auto simp: unchanged_outside_def)

lemma all_finished_towards:
  assumes f: "all_finished C W a" and ab: "towards_finished a b"
  shows "all_finished C W b"
proof -
  have cs: "calc_state b x = calc_FINISHED" if "x \<in> C" for x
  proof -
    from f that have "calc_state a x = calc_FINISHED"
      by (simp add: all_finished_def)
    moreover from ab have "calc_state b x = calc_state a x \<or> calc_state b x = calc_FINISHED"
      by (simp add: towards_finished_def)
    ultimately show ?thesis by auto
  qed
  have ws: "status (workflows b v) = wf_FINISHED" if "v \<in> W" for v
  proof -
    from f that have "status (workflows a v) = wf_FINISHED"
      by (simp add: all_finished_def)
    moreover from ab have "workflows b v = workflows a v \<or>
        workflows b v = (workflows a v)\<lparr>status := wf_FINISHED\<rparr>"
      by (simp add: towards_finished_def)
    ultimately show ?thesis by auto
  qed
  show ?thesis
    unfolding all_finished_def using cs ws by blast
qed

lemma all_finished_union: "all_finished C W d \<Longrightarrow> all_finished C' W' d \<Longrightarrow> all_finished (C \<union> C') (W \<union> W') d"
  by (auto simp: all_finished_def)

lemma get_steps_cong: "steps d' = steps d \<Longrightarrow> get_steps d' = get_steps d"
  by (intro ext) (simp add: get_steps_def split: option.splits)

lemma running_child_cong: "steps d' = steps d \<Longrightarrow> running_child d' = running_child d"
  by (simp add: running_child_def get_steps_cong[of d' d])

lemma kill_visits_cong: "steps d' = steps d \<Longrightarrow> kill_visits d' = kill_visits d"
  by (intro ext) (simp add: kill_visits_def running_child_cong[of d' d])

lemma kill_calcs_cong: "steps d' = steps d \<Longrightarrow> kill_calcs d' = kill_calcs d"
  by (intro ext) (simp add: kill_calcs_def kill_visits_cong[of d' d] get_steps_cong[of d' d])

lemma kill_visits_self: "w \<in> kill_visits d w"
  by (simp add: kill_visits_def)

lemma kill_visits_child:
  "s \<in> set (get_steps d w (Some wf_RUNNING)) \<Longrightarrow> c \<in> set (sub_workflows s) \<Longrightarrow>
   kill_visits d c \<subseteq> kill_visits d w"
proof
  fix v
  assume s: "s \<in> set (get_steps d w (Some wf_RUNNING))" and c: "c \<in> set (sub_workflows s)"
    and v: "v \<in> kill_visits d c"
  from s c have "(w, c) \<in> running_child d"
    by (auto simp: running_child_def)
  moreover from v have "(c, v) \<in> (running_child d)\<^sup>*"
    by (simp add: kill_visits_def)
  ultimately show "v \<in> kill_visits d w"
    by (simp add: kill_visits_def)
qed

lemma kill_calcs_child:
  "s \<in> set (get_steps d w (Some wf_RUNNING)) \<Longrightarrow> c \<in> set (sub_workflows s) \<Longrightarrow>
   kill_calcs d c \<subseteq> kill_calcs d w"
  using kill_visits_child[of s d w c] by (auto simp: kill_calcs_def)

lemma kill_calcs_own:
  "s \<in> set (get_steps d w (Some wf_RUNNING)) \<Longrightarrow> set (calculations s) \<subseteq> kill_calcs d w"
  using kill_visits_self[of w d] by (auto simp: kill_calcs_def)

lemma kill_visits_cases:
  assumes "v \<in> kill_visits d w"
  shows "v = w \<or> (\<exists>s \<in> set (get_steps d w (Some wf_RUNNING)). \<exists>c \<in> set (sub_workflows s).
           v \<in> kill_visits d c)"
proof -
  from assms have "(w, v) \<in> (running_child d)\<^sup>*"
    by (simp add: kill_visits_def)
  then show ?thesis
  proof (cases rule: converse_rtranclE)
    case base
    then show ?thesis by simp
  next
    case (step c)
    then show ?thesis
      by (auto simp: running_child_def kill_visits_def)
  qed
qed

subsection \<open>Loops\<close>

lemma fold_opt_inv:
  assumes "fold_opt f xs s = Some s'" and "P s"
    and "\<And>y a b. y \<in> set xs \<Longrightarrow> P a \<Longrightarrow> f y a = Some b \<Longrightarrow> P b"
  shows "P s'"
  using assms
proof (induction xs arbitrary: s)
  case Nil
  from Nil.prems(1) have "s' = s" by simp
  with Nil.prems(2) show ?case by simp
next
  case (Cons x xs)
  from Cons.prems(1) obtain s1 where s1: "f x s = Some s1" and rest: "fold_opt f xs s1 = Some s'"
    by (auto split: option.splits)
  have 1: "P s1"
    using Cons.prems(3)[of x s s1] Cons.prems(2) s1 by simp
  show ?case
  proof (rule Cons.IH[OF rest 1])
    fix y a b assume "y \<in> set xs" "P a" "f y a = Some b"
    then show "P b" using Cons.prems(3)[of y a b] by simp
  qed
qed

lemma fold_opt_establish:
  assumes "fold_opt f xs s = Some s'" and "I s"
    and step: "\<And>x a b. x \<in> set xs \<Longrightarrow> I a \<Longrightarrow> f x a = Some b \<Longrightarrow> I b \<and> Q x b"
    and keep: "\<And>x y a b. y \<in> set xs \<Longrightarrow> I a \<Longrightarrow> Q x a \<Longrightarrow> f y a = Some b \<Longrightarrow> Q x b"
  shows "I s' \<and> (\<forall>x \<in> set xs. Q x s')"
  using assms
proof (induction xs arbitrary: s)
  case Nil
  from Nil.prems(1) have "s' = s" by simp
  with Nil.prems(2) show ?case by simp
next
  case (Cons x xs)
  from Cons.prems(1) obtain s1 where s1: "f x s = Some s1" and rest: "fold_opt f xs s1 = Some s'"
    by (auto split: option.splits)
  have x: "x \<in> set (x # xs)" by simp
  have 1: "I s1 \<and> Q x s1"
    by (rule Cons.prems(3)[OF x Cons.prems(2) s1])
  then have I1: "I s1" ..
  have tl: "I s' \<and> (\<forall>y \<in> set xs. Q y s')"
  proof (rule Cons.IH[OF rest I1])
    fix y a b assume y: "y \<in> set xs" and a: "I a" and f: "f y a = Some b"
    from y have y': "y \<in> set (x # xs)" by simp
    show "I b \<and> Q y b" by (rule Cons.prems(3)[OF y' a f])
  next
    fix z y a b assume y: "y \<in> set xs" and a: "I a" and q: "Q z a" and f: "f y a = Some b"
    from y have y': "y \<in> set (x # xs)" by simp
    show "Q z b" by (rule Cons.prems(4)[OF y' a q f])
  qed
  have hd: "I s' \<and> Q x s'"
  proof (rule fold_opt_inv[OF rest, where P = "\<lambda>a. I a \<and> Q x a"])
    show "I s1 \<and> Q x s1" by (rule 1)
  next
    fix y a b assume y: "y \<in> set xs" and a: "I a \<and> Q x a" and f: "f y a = Some b"
    from y have y': "y \<in> set (x # xs)" by simp
    from a have Ia: "I a" and Qa: "Q x a" by blast+
    have "I b \<and> Q y b" by (rule Cons.prems(3)[OF y' Ia f])
    then have "I b" ..
    moreover have "Q x b" by (rule Cons.prems(4)[OF y' Ia Qa f])
    ultimately show "I b \<and> Q x b" ..
  qed
  show ?case
  proof (intro conjI ballI)
    show "I s'" using tl ..
  next
    fix y assume "y \<in> set (x # xs)"
    then consider "y = x" | "y \<in> set xs" by auto
    then show "Q y s'"
    proof cases
      case 1
      then show ?thesis using hd by blast
    next
      case 2
      then show ?thesis using tl by blast
    qed
  qed
qed

lemma set_calc_state_simps:
  "steps (set_calc_state st a d) = steps d"
  "workflows (set_calc_state st a d) = workflows d"
  "calc_state (set_calc_state st a d) c = (if c = a then st else calc_state d c)"
  by (simp_all add: set_calc_state_def)

lemma fold_set_calc_state:
  "steps (fold (set_calc_state st) cs d) = steps d \<and>
   workflows (fold (set_calc_state st) cs d) = workflows d \<and>
   (\<forall>c. calc_state (fold (set_calc_state st) cs d) c =
        (if c \<in> set cs then st else calc_state d c))"
proof (induction cs arbitrary: d)
  case Nil
  then show ?case by simp
next
  case (Cons a cs)
  have unf: "fold (set_calc_state st) (a # cs) d = fold (set_calc_state st) cs (set_calc_state st a d)"
    by simp
  show ?case
    unfolding unf
    using Cons.IH[of "set_calc_state st a d"]
    by (simp add: set_calc_state_simps)
qed

lemma bounded_change_refl: "bounded_change C W d d"
  by (simp add: bounded_change_def towards_finished_refl unchanged_outside_refl)

lemma bounded_change_trans: "bounded_change C W a b \<Longrightarrow> bounded_change C W b c \<Longrightarrow> bounded_change C W a c"
  unfolding bounded_change_def using towards_finished_trans unchanged_outside_trans by blast

lemma bounded_change_mono: "bounded_change C W a b \<Longrightarrow> C \<subseteq> C' \<Longrightarrow> W \<subseteq> W' \<Longrightarrow> bounded_change C' W' a b"
  unfolding bounded_change_def using unchanged_outside_mono by blast

lemma bounded_change_steps: "bounded_change C W a b \<Longrightarrow> steps b = steps a"
  by (simp add: bounded_change_def towards_finished_def)

lemma all_finished_change: "all_finished C W a \<Longrightarrow> bounded_change C' W' a b \<Longrightarrow> all_finished C W b"
  unfolding bounded_change_def using all_finished_towards by blast

lemma kill_step_calculations_change:
  "bounded_change (set (calculations s)) {} d (kill_step_calculations s d)"
  using fold_set_calc_state[of calc_FINISHED "calculations s" d]
  by (simp add: bounded_change_def towards_finished_def unchanged_outside_def kill_step_calculations_def)

lemma kill_step_calculations_finished:
  "all_finished (set (calculations s)) {} (kill_step_calculations s d)"
  using fold_set_calc_state[of calc_FINISHED "calculations s" d]
  by (simp add: all_finished_def kill_step_calculations_def)

lemma set_status_change: "bounded_change {} {w} d (set_status w wf_FINISHED d)"
  by (simp add: bounded_change_def towards_finished_def unchanged_outside_def set_status_def)

lemma set_status_finished: "all_finished {} {w} (set_status w wf_FINISHED d)"
  by (simp add: all_finished_def set_status_def)

subsection \<open>The effect of a kill\<close>

text \<open>
  When \<open>kill\<close> has returned, no step row has changed, calculations and workflow rows have
  changed to FINISHED if at all, nothing has changed outside the calculations and workflows
  the kill reaches, and all of those are FINISHED.
\<close>

lemma kill_effect:
  "kill n w d = Some d' \<Longrightarrow>
   bounded_change (kill_calcs d w) (kill_visits d w) d d' \<and> all_finished (kill_calcs d w) (kill_visits d w) d'"
proof (induction n arbitrary: w d d')
  case 0
  then show ?case by simp
next
  case (Suc n)
  let ?C = "kill_calcs d w" and ?W = "kill_visits d w"
  let ?ss = "get_steps d w (Some wf_RUNNING)"
  let ?body = "\<lambda>s d1. fold_opt (kill n) (sub_workflows s) (kill_step_calculations s d1)"
  let ?Qc = "\<lambda>c b. all_finished (kill_calcs d c) (kill_visits d c) b"
  let ?Qs = "\<lambda>s b. all_finished (set (calculations s)) {} b \<and> (\<forall>c \<in> set (sub_workflows s). ?Qc c b)"
  from Suc.prems obtain dm where dm: "fold_opt ?body ?ss d = Some dm"
    and d': "d' = set_status w wf_FINISHED dm"
    by (auto split: option.splits)
  have rec: "bounded_change (kill_calcs d c) (kill_visits d c) a b \<and> ?Qc c b"
    if "steps a = steps d" "kill n c a = Some b" for c a b
    using Suc.IH[OF that(2)] kill_calcs_cong[OF that(1)] kill_visits_cong[OF that(1)] by simp
  have body: "bounded_change ?C ?W a b \<and> ?Qs s b"
    if s: "s \<in> set ?ss" and a: "bounded_change ?C ?W d a" and b: "?body s a = Some b" for s a b
  proof -
    let ?a0 = "kill_step_calculations s a"
    have a0: "bounded_change ?C ?W a ?a0"
      by (rule bounded_change_mono[OF kill_step_calculations_change]) (use kill_calcs_own[OF s] in auto)
    have st0: "steps ?a0 = steps d"
      using bounded_change_steps[OF a0] bounded_change_steps[OF a] by simp
    have inner: "bounded_change ?C ?W ?a0 b \<and> (\<forall>c \<in> set (sub_workflows s). ?Qc c b)"
    proof (rule fold_opt_establish[OF b, where I = "\<lambda>x. bounded_change ?C ?W ?a0 x"])
      show "bounded_change ?C ?W ?a0 ?a0" by (rule bounded_change_refl)
    next
      fix c x y assume c: "c \<in> set (sub_workflows s)" and x: "bounded_change ?C ?W ?a0 x"
        and k: "kill n c x = Some y"
      have stx: "steps x = steps d" using bounded_change_steps[OF x] st0 by simp
      from rec[OF stx k] have e: "bounded_change (kill_calcs d c) (kill_visits d c) x y" and q: "?Qc c y"
        by blast+
      have "bounded_change ?C ?W x y"
        by (rule bounded_change_mono[OF e kill_calcs_child[OF s c] kill_visits_child[OF s c]])
      with x have "bounded_change ?C ?W ?a0 y" by (rule bounded_change_trans)
      then show "bounded_change ?C ?W ?a0 y \<and> ?Qc c y" using q ..
    next
      fix z c x y assume c: "c \<in> set (sub_workflows s)" and x: "bounded_change ?C ?W ?a0 x"
        and q: "?Qc z x" and k: "kill n c x = Some y"
      have stx: "steps x = steps d" using bounded_change_steps[OF x] st0 by simp
      from rec[OF stx k] have e: "bounded_change (kill_calcs d c) (kill_visits d c) x y" ..
      show "?Qc z y" by (rule all_finished_change[OF q e])
    qed
    then have e0: "bounded_change ?C ?W ?a0 b" and qs: "\<forall>c \<in> set (sub_workflows s). ?Qc c b"
      by blast+
    have "bounded_change ?C ?W a b" by (rule bounded_change_trans[OF a0 e0])
    moreover have "all_finished (set (calculations s)) {} b"
      by (rule all_finished_change[OF kill_step_calculations_finished e0])
    ultimately show ?thesis using qs by blast
  qed
  have outer: "bounded_change ?C ?W d dm \<and> (\<forall>s \<in> set ?ss. ?Qs s dm)"
  proof (rule fold_opt_establish[OF dm, where I = "\<lambda>x. bounded_change ?C ?W d x"])
    show "bounded_change ?C ?W d d" by (rule bounded_change_refl)
  next
    fix s a b assume "s \<in> set ?ss" "bounded_change ?C ?W d a" "?body s a = Some b"
    then show "bounded_change ?C ?W d b \<and> ?Qs s b"
      using body[of s a b] bounded_change_trans[of ?C ?W d a b] by blast
  next
    fix z s a b assume s: "s \<in> set ?ss" and a: "bounded_change ?C ?W d a" and q: "?Qs z a"
      and b: "?body s a = Some b"
    from body[OF s a b] have e: "bounded_change ?C ?W a b" ..
    from q have q1: "all_finished (set (calculations z)) {} a"
      and q2: "\<And>c. c \<in> set (sub_workflows z) \<Longrightarrow> ?Qc c a" by blast+
    have "all_finished (set (calculations z)) {} b" by (rule all_finished_change[OF q1 e])
    moreover have "?Qc c b" if "c \<in> set (sub_workflows z)" for c
      by (rule all_finished_change[OF q2[OF that] e])
    ultimately show "?Qs z b" by blast
  qed
  then have em: "bounded_change ?C ?W d dm" and qm: "\<And>s. s \<in> set ?ss \<Longrightarrow> ?Qs s dm"
    by blast+
  have el: "bounded_change ?C ?W dm d'"
    unfolding d' by (rule bounded_change_mono[OF set_status_change]) (use kill_visits_self[of w d] in auto)
  have e: "bounded_change ?C ?W d d'" by (rule bounded_change_trans[OF em el])
  have fc: "calc_state d' c = calc_FINISHED" if "c \<in> ?C" for c
  proof -
    from that obtain v s where v: "v \<in> ?W" and s: "s \<in> set (get_steps d v (Some wf_RUNNING))"
      and c: "c \<in> set (calculations s)"
      by (auto simp: kill_calcs_def)
    have "calc_state dm c = calc_FINISHED"
    proof -
      from kill_visits_cases[OF v] consider "v = w"
        | s' c' where "s' \<in> set ?ss" "c' \<in> set (sub_workflows s')" "v \<in> kill_visits d c'"
        by blast
      then show ?thesis
      proof cases
        case 1
        with s qm[of s] c show ?thesis by (simp add: all_finished_def)
      next
        case 2
        from 2(3) s c have "c \<in> kill_calcs d c'" by (auto simp: kill_calcs_def)
        with qm[OF 2(1)] 2(2) show ?thesis by (simp add: all_finished_def)
      qed
    qed
    then have "all_finished {c} {} dm" by (simp add: all_finished_def)
    from all_finished_change[OF this el] show ?thesis by (simp add: all_finished_def)
  qed
  have fw: "status (workflows d' v) = wf_FINISHED" if v: "v \<in> ?W" for v
  proof -
    from kill_visits_cases[OF v] consider "v = w"
      | s' c' where "s' \<in> set ?ss" "c' \<in> set (sub_workflows s')" "v \<in> kill_visits d c'"
      by blast
    then show ?thesis
    proof cases
      case 1
      then show ?thesis using set_status_finished[of w dm] by (simp add: d' all_finished_def)
    next
      case 2
      from 2(3) qm[OF 2(1)] 2(2) have "all_finished {} {v} dm" by (simp add: all_finished_def)
      from all_finished_change[OF this el] show ?thesis by (simp add: all_finished_def)
    qed
  qed
  from e fc fw show ?case by (simp add: all_finished_def)
qed

subsection \<open>Termination of a kill\<close>

lemma fold_opt_total:
  assumes "P s"
    and "\<And>x a. x \<in> set xs \<Longrightarrow> P a \<Longrightarrow> \<exists>b. f x a = Some b \<and> P b"
  shows "\<exists>s'. fold_opt f xs s = Some s' \<and> P s'"
  using assms(1) assms(2)
proof (induction xs arbitrary: s)
  case Nil
  from Nil(1) show ?case by simp
next
  case (Cons x xs)
  have x: "x \<in> set (x # xs)" by simp
  from Cons.prems(2)[OF x Cons.prems(1)] obtain s1 where s1: "f x s = Some s1" and p1: "P s1"
    by blast
  have "\<exists>s'. fold_opt f xs s1 = Some s' \<and> P s'"
  proof (rule Cons.IH[OF p1])
    fix y a assume y: "y \<in> set xs" and a: "P a"
    from y have y': "y \<in> set (x # xs)" by simp
    show "\<exists>b. f y a = Some b \<and> P b" by (rule Cons.prems(2)[OF y' a])
  qed
  with s1 show ?case by simp
qed

lemma finite_acyclic_rank:
  assumes finite_R: "finite R" and acyc: "acyclic R"
  shows "\<exists>r :: 'a \<Rightarrow> nat. \<forall>(a, b) \<in> R. r b < r a"
proof -
  let ?r = "\<lambda>a. card (R\<^sup>+ `` {a})"
  have finR: "finite (R\<^sup>+ `` {a})" for a
  proof (rule finite_subset)
    show "R\<^sup>+ `` {a} \<subseteq> Range R"
    proof
      fix b assume "b \<in> R\<^sup>+ `` {a}"
      then have "(a, b) \<in> R\<^sup>+" by simp
      then show "b \<in> Range R" by (induction rule: trancl.induct) auto
    qed
    show "finite (Range R)" using finite_R by (rule finite_Range)
  qed
  have "?r b < ?r a" if ab: "(a, b) \<in> R" for a b
  proof (rule psubset_card_mono[OF finR])
    have sub: "R\<^sup>+ `` {b} \<subseteq> R\<^sup>+ `` {a}"
      using ab by (auto intro: trancl_into_trancl2)
    have "b \<in> R\<^sup>+ `` {a}" using ab by auto
    moreover have "b \<notin> R\<^sup>+ `` {b}" using acyc by (auto simp: acyclic_def)
    ultimately show "R\<^sup>+ `` {b} \<subset> R\<^sup>+ `` {a}" using sub by blast
  qed
  then have "\<forall>(a, b) \<in> R. ?r b < ?r a" by blast
  then show ?thesis by (rule exI[of _ ?r])
qed

lemma running_child_subset: "running_child d \<subseteq> child d"
  by (auto simp: running_child_def child_def get_steps_def)

lemma finite_child: "finite (child d)"
proof (rule finite_subset)
  show "child d \<subseteq> (parent ` set (steps d)) \<times> (\<Union>s \<in> set (steps d). set (sub_workflows s))"
    by (auto simp: child_def get_steps_def)
  show "finite ((parent ` set (steps d)) \<times> (\<Union>s \<in> set (steps d). set (sub_workflows s)))"
    by simp
qed

lemma kill_steps:
  assumes "kill n w d = Some d'"
  shows "steps d' = steps d"
proof -
  from kill_effect[OF assms] have "bounded_change (kill_calcs d w) (kill_visits d w) d d'" ..
  then show ?thesis by (rule bounded_change_steps)
qed

lemma kill_ranked_total:
  assumes r: "\<And>a b. (a, b) \<in> running_child d0 \<Longrightarrow> r b < (r a :: nat)"
  shows "steps d = steps d0 \<Longrightarrow> r w < n \<Longrightarrow> \<exists>d'. kill n w d = Some d'"
proof (induction n arbitrary: w d)
  case 0
  then show ?case by simp
next
  case (Suc n)
  let ?ss = "get_steps d w (Some wf_RUNNING)"
  let ?body = "\<lambda>s d1. fold_opt (kill n) (sub_workflows s) (kill_step_calculations s d1)"
  let ?P = "\<lambda>a :: db. steps a = steps d0"
  have body: "\<exists>b. ?body s a = Some b \<and> ?P b" if s: "s \<in> set ?ss" and a: "?P a" for s a
  proof (rule fold_opt_total[where P = ?P])
    show "?P (kill_step_calculations s a)"
      using bounded_change_steps[OF kill_step_calculations_change[of s a]] a by simp
  next
    fix c x assume c: "c \<in> set (sub_workflows s)" and x: "?P x"
    from s have "s \<in> set (get_steps d0 w (Some wf_RUNNING))"
      using get_steps_cong[OF Suc.prems(1)] by simp
    with c have "(w, c) \<in> running_child d0" by (auto simp: running_child_def)
    from r[OF this] Suc.prems(2) have "r c < n" by simp
    from Suc.IH[OF x this] obtain b where b: "kill n c x = Some b" ..
    from kill_steps[OF b] x have "?P b" by simp
    with b show "\<exists>b. kill n c x = Some b \<and> ?P b" by simp
  qed
  have "\<exists>dm. fold_opt ?body ?ss d = Some dm \<and> ?P dm"
    by (rule fold_opt_total[where P = ?P, OF Suc.prems(1)]) (rule body)
  then obtain dm where "fold_opt ?body ?ss d = Some dm" by blast
  then show ?case by simp
qed

text \<open>
  C9. On a finite workflow tree whose ownership links form no cycle, \<open>kill\<close> returns: some
  depth of recursion is enough for it to have a result. The step table is a list, so the
  tree is finite; that each workflow has one parent only is not needed. By
  \<open>kill_fuel_mono\<close> any greater depth gives the same result.
\<close>

theorem kill_terminates:
  assumes "acyclic (child d)"
  shows "\<exists>n d'. kill n w d = Some d'"
proof -
  from finite_acyclic_rank[OF finite_child assms] obtain r :: "uuid \<Rightarrow> nat"
    where r: "\<forall>(a, b) \<in> child d. r b < r a" ..
  have "\<exists>d'. kill (Suc (r w)) w d = Some d'"
  proof (rule kill_ranked_total[where r = r and ?d0.0 = d])
    fix a b assume "(a, b) \<in> running_child d"
    with running_child_subset[of d] r show "r b < r a" by blast
  qed simp_all
  then show ?thesis by blast
qed

lemma fold_opt_mono:
  assumes "fold_opt f xs s = Some s'"
    and "\<And>x a b. x \<in> set xs \<Longrightarrow> f x a = Some b \<Longrightarrow> g x a = Some b"
  shows "fold_opt g xs s = Some s'"
  using assms(1) assms(2)
proof (induction xs arbitrary: s)
  case Nil
  from Nil(1) show ?case by simp
next
  case (Cons x xs)
  from Cons.prems(1) obtain s1 where s1: "f x s = Some s1" and rest: "fold_opt f xs s1 = Some s'"
    by (auto split: option.splits)
  have x: "x \<in> set (x # xs)" by simp
  have g1: "g x s = Some s1" by (rule Cons.prems(2)[OF x s1])
  have "fold_opt g xs s1 = Some s'"
  proof (rule Cons.IH[OF rest])
    fix y a b assume y: "y \<in> set xs" and f: "f y a = Some b"
    from y have y': "y \<in> set (x # xs)" by simp
    show "g y a = Some b" by (rule Cons.prems(2)[OF y' f])
  qed
  with g1 show ?case by simp
qed

lemma kill_fuel_Suc: "kill n w d = Some d' \<Longrightarrow> kill (Suc n) w d = Some d'"
proof (induction n arbitrary: w d d')
  case 0
  then show ?case by simp
next
  case (Suc n)
  let ?ss = "get_steps d w (Some wf_RUNNING)"
  let ?body = "\<lambda>k s d1. fold_opt (kill k) (sub_workflows s) (kill_step_calculations s d1)"
  from Suc.prems obtain dm where dm: "fold_opt (?body n) ?ss d = Some dm"
    and d': "d' = set_status w wf_FINISHED dm"
    by (auto split: option.splits)
  have "fold_opt (?body (Suc n)) ?ss d = Some dm"
  proof (rule fold_opt_mono[OF dm])
    fix s a b assume "fold_opt (kill n) (sub_workflows s) (kill_step_calculations s a) = Some b"
    then show "fold_opt (kill (Suc n)) (sub_workflows s) (kill_step_calculations s a) = Some b"
      by (rule fold_opt_mono) (rule Suc.IH)
  qed
  then show ?case
    unfolding d' by (subst kill.simps) simp
qed

lemma kill_fuel_add: "kill n w d = Some d' \<Longrightarrow> kill (n + k) w d = Some d'"
  by (induction k) (auto intro: kill_fuel_Suc simp del: kill.simps)

lemma kill_fuel_mono:
  assumes "kill n w d = Some d'" and "n \<le> m"
  shows "kill m w d = Some d'"
  using kill_fuel_add[OF assms(1), of "m - n"] assms(2) by simp

subsection \<open>What a kill leaves alone\<close>

lemma get_steps_NoneD: "s \<in> set (get_steps d w None) \<Longrightarrow> s \<in> set (steps d) \<and> parent s = w"
  by (simp add: get_steps_def)

lemma get_steps_SomeD:
  "s \<in> set (get_steps d w (Some st)) \<Longrightarrow> s \<in> set (steps d) \<and> parent s = w \<and> step_status s = st"
  by (simp add: get_steps_def)

lemma kill_skips_subtree:
  assumes acyc: "acyclic (child d)" and sp: "single_parent d"
    and s: "s \<in> set (get_steps d w None)" and ns: "step_status s \<noteq> wf_RUNNING"
    and v: "v \<in> set (sub_workflows s)"
    and x: "x \<in> kill_visits d w"
  shows "x \<notin> subtree d v"
proof -
  from s have s_in: "s \<in> set (steps d)" and s_par: "parent s = w"
    using get_steps_NoneD by blast+
  from s v have wv: "(w, v) \<in> child d" by (auto simp: child_def)
  from x have "(w, x) \<in> (running_child d)\<^sup>*" by (simp add: kill_visits_def)
  then show ?thesis
  proof (induction rule: rtrancl_induct)
    case base
    show ?case
    proof
      assume "w \<in> subtree d v"
      then have "(v, w) \<in> (child d)\<^sup>*" by (simp add: subtree_def)
      from this wv have "(v, v) \<in> (child d)\<^sup>+" by (rule rtrancl_into_trancl1)
      with acyc show False by (simp add: acyclic_def)
    qed
  next
    case (step y z)
    from step.hyps(2) obtain t where t: "t \<in> set (get_steps d y (Some wf_RUNNING))"
      and z: "z \<in> set (sub_workflows t)"
      by (auto simp: running_child_def)
    from t have t_in: "t \<in> set (steps d)" and t_par: "parent t = y"
      and t_run: "step_status t = wf_RUNNING"
      using get_steps_SomeD by blast+
    show ?case
    proof
      assume "z \<in> subtree d v"
      then have "(v, z) \<in> (child d)\<^sup>*" by (simp add: subtree_def)
      then show False
      proof (cases rule: rtranclE)
        case base
        with z v have "v \<in> set (sub_workflows t)" by simp
        with sp s_in t_in v have "s = t" unfolding single_parent_def by blast
        with ns t_run show False by simp
      next
        case (step u)
        from step(2) obtain t' where t': "t' \<in> set (get_steps d u None)"
          and z': "z \<in> set (sub_workflows t')"
          by (auto simp: child_def)
        from t' have t'_in: "t' \<in> set (steps d)" and t'_par: "parent t' = u"
          using get_steps_NoneD by blast+
        from sp t_in t'_in z z' have "t = t'" unfolding single_parent_def by blast
        with t_par t'_par have "u = y" by simp
        with step(1) have "y \<in> subtree d v" by (simp add: subtree_def)
        with \<open>y \<notin> subtree d v\<close> show False by simp
      qed
    qed
  qed
qed

text \<open>
  C10. \<open>kill\<close> touches only what hangs off RUNNING steps. In a tree (no cycle of ownership,
  each sub-workflow under one step, each calculation under one step), after \<open>kill\<close> has
  returned no step row has changed, and for every step of the workflow that is not RUNNING
  the calculations of the step are in the state they were in, and of every workflow in the
  subtree of each of its sub-workflows the row (status and report) and the calculations of
  all its steps are as they were: the kill did not go into them.
\<close>

theorem kill_frame:
  assumes k: "kill n w d = Some d'"
    and acyc: "acyclic (child d)" and sp: "single_parent d" and ex: "exclusive_calcs d"
    and s: "s \<in> set (get_steps d w None)" and ns: "step_status s \<noteq> wf_RUNNING"
  shows "steps d' = steps d \<and>
    (\<forall>c \<in> set (calculations s). calc_state d' c = calc_state d c) \<and>
    (\<forall>v \<in> set (sub_workflows s). \<forall>x \<in> subtree d v.
        workflows d' x = workflows d x \<and>
        (\<forall>t \<in> set (get_steps d x None). \<forall>c \<in> set (calculations t).
            calc_state d' c = calc_state d c))"
proof -
  from kill_effect[OF k] have "bounded_change (kill_calcs d w) (kill_visits d w) d d'" ..
  then have st: "steps d' = steps d" and outside: "unchanged_outside (kill_calcs d w) (kill_visits d w) d d'"
    by (simp_all add: bounded_change_def towards_finished_def)
  from s have s_in: "s \<in> set (steps d)" using get_steps_NoneD by blast
  have calc_owner: "parent t = y \<and> step_status t = wf_RUNNING \<and> y \<in> kill_visits d w"
    if t: "t \<in> set (steps d)" and c: "c \<in> set (calculations t)" and kc: "c \<in> kill_calcs d w"
      and y: "y = parent t" for t c y
  proof -
    from kc obtain u t2 where u: "u \<in> kill_visits d w"
      and t2: "t2 \<in> set (get_steps d u (Some wf_RUNNING))" and c2: "c \<in> set (calculations t2)"
      by (auto simp: kill_calcs_def)
    from t2 have t2_in: "t2 \<in> set (steps d)" and t2_par: "parent t2 = u"
      and t2_run: "step_status t2 = wf_RUNNING"
      using get_steps_SomeD by blast+
    from ex t t2_in c c2 have "t = t2" unfolding exclusive_calcs_def by blast
    with t2_par t2_run u y show ?thesis by simp
  qed
  have own: "calc_state d' c = calc_state d c" if c: "c \<in> set (calculations s)" for c
  proof -
    have "c \<notin> kill_calcs d w"
    proof
      assume "c \<in> kill_calcs d w"
      from calc_owner[OF s_in c this refl] ns show False by simp
    qed
    with outside show ?thesis by (simp add: unchanged_outside_def)
  qed
  have sub: "workflows d' x = workflows d x \<and>
        (\<forall>t \<in> set (get_steps d x None). \<forall>c \<in> set (calculations t).
            calc_state d' c = calc_state d c)"
    if v: "v \<in> set (sub_workflows s)" and x: "x \<in> subtree d v" for v x
  proof -
    have nx: "x \<notin> kill_visits d w"
      using kill_skips_subtree[OF acyc sp s ns v] x by blast
    with outside have 1: "workflows d' x = workflows d x" by (simp add: unchanged_outside_def)
    have 2: "calc_state d' c = calc_state d c"
      if t: "t \<in> set (get_steps d x None)" and c: "c \<in> set (calculations t)" for t c
    proof -
      from t have t_in: "t \<in> set (steps d)" and t_par: "parent t = x"
        using get_steps_NoneD by blast+
      have "c \<notin> kill_calcs d w"
      proof
        assume "c \<in> kill_calcs d w"
        from calc_owner[OF t_in c this refl] t_par nx show False by simp
      qed
      with outside show ?thesis by (simp add: unchanged_outside_def)
    qed
    from 1 2 show ?thesis by blast
  qed
  from st own sub show ?thesis by blast
qed

lemmas kill_example_defs = nested_db_def branch_db_def deep_db_def store_of_def running_step_def
  finished_step_def get_steps_def kill_step_calculations_def set_calc_state_def set_status_def

subsection \<open>The examples\<close>

lemma ranked_acyclic:
  assumes "\<And>a b. (a, b) \<in> R \<Longrightarrow> r b < (r a :: nat)"
  shows "acyclic R"
proof -
  have "R\<inverse> \<subseteq> measure r" using assms by auto
  then have "wf (R\<inverse>)" by (rule wf_subset[OF wf_measure])
  then have "acyclic (R\<inverse>)" by (rule wf_acyclic)
  then show ?thesis by (simp add: acyclic_converse)
qed

lemma child_branch_db: "child branch_db = {(0, 1), (1, 2), (0, 3)}"
  by (auto simp: child_def kill_example_defs split: if_splits)

lemma acyclic_branch_db: "acyclic (child branch_db)"
  by (rule ranked_acyclic[where r = "\<lambda>w. 3 - w"]) (auto simp: child_branch_db)

lemma kill_branch_db_returns: "\<exists>d'. kill 3 0 branch_db = Some d'"
  by (simp add: kill_example_defs numeral_3_eq_3)

lemma kill_nested_db_returns: "\<exists>d'. kill 3 0 nested_db = Some d'"
  by (simp add: kill_example_defs numeral_3_eq_3)

lemma nested_db_visits: "1 \<in> kill_visits nested_db 0" "2 \<in> kill_visits nested_db 0"
proof -
  have "(0, 1) \<in> running_child nested_db" "(1, 2) \<in> running_child nested_db"
    by (simp_all add: running_child_def kill_example_defs)
  then have "(0, 1) \<in> (running_child nested_db)\<^sup>*" "(0, 2) \<in> (running_child nested_db)\<^sup>*"
    by auto
  then show "1 \<in> kill_visits nested_db 0" "2 \<in> kill_visits nested_db 0"
    by (simp_all add: kill_visits_def)
qed

subsection \<open>What a kill does to calculations, workflows and steps\<close>

text \<open>
  C1 as stated does not hold: on the nested example, the calculation of the innermost
  RUNNING step is in state FINISHED after the kill, not in state KILLED.
\<close>

theorem kill_sets_FINISHED_not_KILLED:
  "calc_state_after_kill 3 0 nested_db 12 = Some calc_FINISHED \<and>
   calc_state_after_kill 3 0 nested_db 12 \<noteq> Some calc_KILLED"
  by (simp add: calc_state_after_kill_def kill_example_defs numeral_3_eq_3)

text \<open>
  C1, as the code has it. When \<open>kill\<close> has returned, every calculation of every RUNNING
  step of every workflow that the kill reached (the workflow itself and, through RUNNING
  steps only, the sub-workflows beneath it) is in the terminal state FINISHED.
\<close>

theorem kill_finishes_reached_calculations:
  assumes "kill n w d = Some d'"
    and "v \<in> kill_visits d w"
    and "s \<in> set (get_steps d v (Some wf_RUNNING))"
    and "c \<in> set (calculations s)"
  shows "calc_state d' c = calc_FINISHED"
proof -
  from kill_effect[OF assms(1)] have "all_finished (kill_calcs d w) (kill_visits d w) d'" ..
  moreover from assms(2-4) have "c \<in> kill_calcs d w" by (auto simp: kill_calcs_def)
  ultimately show ?thesis by (simp add: all_finished_def)
qed

theorem kill_finishes_reached_calculations_witness:
  "calc_state_after_kill 3 0 nested_db 11 = Some calc_FINISHED"
proof -
  from kill_nested_db_returns obtain d' where k: "kill 3 0 nested_db = Some d'" ..
  have s: "running_step 1 [11] [2] \<in> set (get_steps nested_db 1 (Some wf_RUNNING))"
    by (simp add: kill_example_defs)
  have c: "11 \<in> set (calculations (running_step 1 [11] [2]))"
    by (simp add: running_step_def)
  from kill_finishes_reached_calculations[OF k nested_db_visits(1) s c]
  show ?thesis by (simp add: calc_state_after_kill_def k)
qed

text \<open>
  C2 as stated does not hold: on the example of three RUNNING steps across two nested
  sub-workflows, after the kill the root's status is FINISHED and all three steps are still
  RUNNING, so a workflow becomes FINISHED while steps beneath it are RUNNING.
\<close>

theorem kill_leaves_steps_RUNNING:
  "status_after_kill 3 0 nested_db 0 = Some wf_FINISHED \<and>
   step_statuses_after_kill 3 0 nested_db = Some [wf_RUNNING, wf_RUNNING, wf_RUNNING]"
  by (simp add: status_after_kill_def step_statuses_after_kill_def kill_example_defs numeral_3_eq_3)

text \<open>
  C2, as the code has it. When \<open>kill\<close> has returned, the status of the workflow is
  FINISHED, as is the status of every workflow the kill reached, and the step table is what
  it was: \<open>kill\<close> changes no step, whatever its status.
\<close>

theorem kill_finishes_workflows_keeps_steps:
  assumes "kill n w d = Some d'"
  shows "status (workflows d' w) = wf_FINISHED \<and>
         (\<forall>v \<in> kill_visits d w. status (workflows d' v) = wf_FINISHED) \<and>
         steps d' = steps d"
proof -
  from kill_effect[OF assms] have f: "all_finished (kill_calcs d w) (kill_visits d w) d'" ..
  then have all: "\<forall>v \<in> kill_visits d w. status (workflows d' v) = wf_FINISHED"
    by (simp add: all_finished_def)
  with kill_visits_self[of w d] have "status (workflows d' w) = wf_FINISHED" by blast
  with all kill_steps[OF assms] show ?thesis by simp
qed

theorem kill_finishes_workflows_keeps_steps_witness:
  "status_after_kill 3 0 nested_db 2 = Some wf_FINISHED \<and>
   step_statuses_after_kill 3 0 nested_db = Some (map step_status (steps nested_db))"
proof -
  from kill_nested_db_returns obtain d' where k: "kill 3 0 nested_db = Some d'" ..
  from kill_finishes_workflows_keeps_steps[OF k] nested_db_visits(2)
  have "status (workflows d' 2) = wf_FINISHED" and "steps d' = steps nested_db" by blast+
  then show ?thesis by (simp add: status_after_kill_def step_statuses_after_kill_def k)
qed

text \<open>The witness of C9: the kill of the root of the branching example returns.\<close>

theorem kill_terminates_witness: "\<exists>n d'. kill n 0 branch_db = Some d'"
  using kill_terminates[OF acyclic_branch_db, of 0] .

text \<open>
  The witness of C10: after the kill of the root of the branching example, the calculation
  of the FINISHED step, and the sub-workflow of that step with the calculation of its
  RUNNING step, are as before.
\<close>

theorem kill_frame_witness:
  "calc_state_after_kill 3 0 branch_db 13 = Some calc_RUNNING \<and>
   calc_state_after_kill 3 0 branch_db 14 = Some calc_RUNNING \<and>
   status_after_kill 3 0 branch_db 3 = Some wf_RUNNING"
proof -
  from kill_branch_db_returns obtain d' where k: "kill 3 0 branch_db = Some d'" ..
  have sp: "single_parent branch_db" by (simp add: single_parent_def kill_example_defs)
  have ex: "exclusive_calcs branch_db" by (simp add: exclusive_calcs_def kill_example_defs)
  have s: "finished_step 0 [13] [3] \<in> set (get_steps branch_db 0 None)"
    by (simp add: kill_example_defs)
  have ns: "step_status (finished_step 0 [13] [3]) \<noteq> wf_RUNNING"
    by (simp add: finished_step_def)
  have c: "13 \<in> set (calculations (finished_step 0 [13] [3]))"
    and v: "3 \<in> set (sub_workflows (finished_step 0 [13] [3]))"
    by (simp_all add: finished_step_def)
  have x: "3 \<in> subtree branch_db 3" by (simp add: subtree_def)
  have t: "running_step 3 [14] [] \<in> set (get_steps branch_db 3 None)"
    by (simp add: kill_example_defs)
  have c': "14 \<in> set (calculations (running_step 3 [14] []))"
    by (simp add: running_step_def)
  have before: "calc_state branch_db 13 = calc_RUNNING" "calc_state branch_db 14 = calc_RUNNING"
    "status (workflows branch_db 3) = wf_RUNNING"
    by (simp_all add: branch_db_def store_of_def)
  from kill_frame[OF k acyclic_branch_db sp ex s ns] c v x t c'
  have "calc_state d' 13 = calc_state branch_db 13"
    and "calc_state d' 14 = calc_state branch_db 14"
    and "workflows d' 3 = workflows branch_db 3"
    by blast+
  with before show ?thesis
    by (simp add: calc_state_after_kill_def status_after_kill_def k)
qed

subsection \<open>Steps\<close>

text \<open>
  C5. For every workflow and store, asking for the step named \<open>exit\<close> raises the error of
  the reserved name (the source's \<open>InternalError\<close> with the reserved-string message, the
  spec's \<open>ReservedNameError\<close>) and leaves the store, and with it the steps of the workflow,
  as it was: no step is created.
\<close>

theorem get_step_exit_rejected:
  "get_step w ''exit'' d =
     (Inl (InternalError ''Cannot query a step with name exit, reserved string''), d)"
  by (simp add: get_step_def WF_STEP_EXIT_def)

subsection \<open>Reports\<close>





























subsection \<open>Commands\<close>

lemma those_map_Some: "those (map (\<lambda>x. Some (f x)) xs) = Some (map f xs)"
  by (induction xs) simp_all

lemma height_child: "t \<in> set ts \<Longrightarrow> height t \<le> foldr max (map height ts) 0"
  by (induction ts) auto

text \<open>
  C7. When the calls below a work calculation unfold to a tree (no cycle of calls), and the
  depth allowed covers the height of the tree, \<open>get_subtree\<close> returns the pre-order
  sequence of the tree: the pk with the level it was given (0 at the start), then each
  called calculation's sequence one level deeper. For 1 that called 2 that called 3 this
  is \<open>[(1, 0), (2, 1), (3, 2)]\<close>, which is the witness.
\<close>

theorem get_subtree_preorder:
  "is_call_tree called t \<Longrightarrow> height t \<le> n \<Longrightarrow>
   get_subtree called n (root t) level = Some (preorder level t)"
proof (induction t arbitrary: n level)
  case (Node p ts)
  from Node.prems(2) obtain m where n: "n = Suc m" and m: "foldr max (map height ts) 0 \<le> m"
    by (cases n) auto
  from Node.prems(1) have calls: "called p = map root ts"
    and sub: "\<And>t. t \<in> set ts \<Longrightarrow> is_call_tree called t"
    by auto
  have "get_subtree called m (root t) (level + 1) = Some (preorder (Suc level) t)"
    if t: "t \<in> set ts" for t
  proof -
    from height_child[OF t] m have "height t \<le> m" by simp
    from Node.IH[OF t sub[OF t] this, of "level + 1"] show ?thesis by simp
  qed
  then have "map (\<lambda>subpk. get_subtree called m subpk (level + 1)) (called p) =
      map (\<lambda>t. Some (preorder (Suc level) t)) ts"
    by (simp add: calls)
  then have "those (map (\<lambda>subpk. get_subtree called m subpk (level + 1)) (called p)) =
      Some (map (preorder (Suc level)) ts)"
    by (simp only: those_map_Some)
  then show ?case by (simp add: n)
qed

theorem get_subtree_preorder_witness:
  "get_subtree chain_calls 3 1 0 = Some [(1, 0), (2, 1), (3, 2)]"
  using get_subtree_preorder[of chain_calls "Node 1 [Node 2 [Node 3 []]]" 3 0]
  by (simp add: chain_calls_def)

text \<open>
  C4 as stated does not hold in its last part: the outcome of a terminated calculation is
  reported as a failure. In \<open>work_kill\<close> and \<open>work_pause\<close> the line for the terminated
  calculation 2 and the line for calculation 1, whose command was not delivered, are
  printed by the same utility, \<open>echo_error\<close>, and so is the line of \<open>work_play\<close>.
\<close>

theorem terminated_target_reported_as_error:
  "echoed (snd (work_kill no_listener_for_1 [terminated 2, live 1] fresh)) =
     [(Error, ''Calculation<'', 2, ''> is already terminated''),
      (Error, ''failed to kill Calculation<'', 1, ''>: no listener'')] \<and>
   echoed (snd (work_pause no_listener_for_1 [terminated 2, live 1] fresh)) =
     [(Error, ''Calculation<'', 2, ''> is already terminated''),
      (Error, ''failed to pause Calculation<'', 1, ''>: no listener'')] \<and>
   echoed (snd (work_play True no_listener_for_1 [terminated 2] fresh)) =
     [(Error, ''Calculation<'', 2, ''> is already terminated'')] \<and>
   failure_report (Error, ''Calculation<'', 2, ''> is already terminated'')"
  by (simp add: no_listener_for_1_def terminated_def live_def fresh_def echo_def publish_def
      caught_def failure_report_def)

text \<open>
  C4, as the code has it. In each of the three commands a terminated calculation publishes
  nothing: the loop echoes with \<open>echo_error\<close> that it is already terminated, leaves the
  published commands as they are and goes on with the rest of the batch from there.
\<close>

theorem terminated_target_skipped:
  assumes "is_terminated c"
  shows "work_kill cp (c # cs) s =
           work_kill cp cs (echo Error ''Calculation<'' (pk c) ''> is already terminated'' s) \<and>
         work_pause cp (c # cs) s =
           work_pause cp cs (echo Error ''Calculation<'' (pk c) ''> is already terminated'' s) \<and>
         work_play critical_exits cp (c # cs) s =
           work_play critical_exits cp cs
             (echo Error ''Calculation<'' (pk c) ''> is already terminated'' s) \<and>
         published (echo Error ''Calculation<'' (pk c) ''> is already terminated'' s) = published s"
  using assms by (simp add: echo_def)

theorem terminated_target_skipped_witness:
  "work_kill no_listener_for_1 [terminated 1] fresh =
     (Returned, \<lparr>echoed = [(Error, ''Calculation<'', 1, ''> is already terminated'')], published = []\<rparr>) \<and>
   work_pause no_listener_for_1 [terminated 1] fresh =
     (Returned, \<lparr>echoed = [(Error, ''Calculation<'', 1, ''> is already terminated'')], published = []\<rparr>) \<and>
   work_play True no_listener_for_1 [terminated 1] fresh =
     (Returned, \<lparr>echoed = [(Error, ''Calculation<'', 1, ''> is already terminated'')], published = []\<rparr>)"
proof -
  have t: "is_terminated (terminated 1)" by (simp add: terminated_def)
  note skip = terminated_target_skipped[OF t, of no_listener_for_1 "[]" fresh True]
  from skip have k: "work_kill no_listener_for_1 [terminated 1] fresh =
      work_kill no_listener_for_1 []
        (echo Error ''Calculation<'' (pk (terminated 1)) ''> is already terminated'' fresh)"
    by (rule conjunct1)
  from skip have p: "work_pause no_listener_for_1 [terminated 1] fresh =
      work_pause no_listener_for_1 []
        (echo Error ''Calculation<'' (pk (terminated 1)) ''> is already terminated'' fresh)"
    by blast
  from skip have q: "work_play True no_listener_for_1 [terminated 1] fresh =
      work_play True no_listener_for_1 []
        (echo Error ''Calculation<'' (pk (terminated 1)) ''> is already terminated'' fresh)"
    by blast
  show ?thesis
    unfolding k p q by (simp add: terminated_def echo_def fresh_def)
qed

text \<open>
  The loops of \<open>work_kill\<close> and \<open>work_pause\<close> go through the whole batch whatever the
  panel answers: they return and have echoed one line for each target.
\<close>

lemma work_kill_every_target:
  "answers cp \<Longrightarrow>
   fst (work_kill cp cs s) = Returned \<and>
   length (echoed (snd (work_kill cp cs s))) = length (echoed s) + length cs"
proof (induction cs arbitrary: s)
  case Nil
  show ?case by simp
next
  case (Cons c cs)
  note IH = Cons.IH[OF Cons.prems]
  show ?case
  proof (cases "is_terminated c")
    case True
    then show ?thesis using IH[of "echo Error ''Calculation<'' (pk c) ''> is already terminated'' s"]
      by (simp add: echo_def)
  next
    case False
    show ?thesis
    proof (cases "cp (published s) (KILL, pk c)")
      case (Returns ok)
      with False show ?thesis
        using IH[of "echo Success ''killed Calculation<'' (pk c) ''>'' (publish (KILL, pk c) s)"]
          IH[of "echo Error ''problem killing Calculation<'' (pk c) ''>'' (publish (KILL, pk c) s)"]
        by (simp add: echo_def publish_def)
    next
      case (Raises e m)
      with Cons.prems have "caught e" unfolding answers_def by blast
      with False Raises show ?thesis
        using IH[of "echo Error ''failed to kill Calculation<'' (pk c) (''>: '' @ m) (publish (KILL, pk c) s)"]
        by (simp add: echo_def publish_def)
    qed
  qed
qed

lemma work_pause_every_target:
  "answers cp \<Longrightarrow>
   fst (work_pause cp cs s) = Returned \<and>
   length (echoed (snd (work_pause cp cs s))) = length (echoed s) + length cs"
proof (induction cs arbitrary: s)
  case Nil
  show ?case by simp
next
  case (Cons c cs)
  note IH = Cons.IH[OF Cons.prems]
  show ?case
  proof (cases "is_terminated c")
    case True
    then show ?thesis using IH[of "echo Error ''Calculation<'' (pk c) ''> is already terminated'' s"]
      by (simp add: echo_def)
  next
    case False
    show ?thesis
    proof (cases "cp (published s) (PAUSE, pk c)")
      case (Returns ok)
      with False show ?thesis
        using IH[of "echo Success ''paused Calculation<'' (pk c) ''>'' (publish (PAUSE, pk c) s)"]
          IH[of "echo Error ''problem pausing Calculation<'' (pk c) ''>'' (publish (PAUSE, pk c) s)"]
        by (simp add: echo_def publish_def)
    next
      case (Raises e m)
      with Cons.prems have "caught e" unfolding answers_def by blast
      with False Raises show ?thesis
        using IH[of "echo Error ''failed to pause Calculation<'' (pk c) (''>: '' @ m) (publish (PAUSE, pk c) s)"]
        by (simp add: echo_def publish_def)
    qed
  qed
qed

lemma work_kill_continues_batch:
  "work_kill no_listener_for_1 [live 1, live 2] fresh =
     (Returned,
      \<lparr>echoed = [(Error, ''failed to kill Calculation<'', 1, ''>: no listener''),
                 (Success, ''killed Calculation<'', 2, ''>'')],
       published = [(KILL, 1), (KILL, 2)]\<rparr>)"
  by (simp add: no_listener_for_1_def live_def fresh_def echo_def publish_def caught_def)

lemma work_pause_continues_batch:
  "work_pause no_listener_for_1 [live 1, live 2] fresh =
     (Returned,
      \<lparr>echoed = [(Error, ''failed to pause Calculation<'', 1, ''>: no listener''),
                 (Success, ''paused Calculation<'', 2, ''>'')],
       published = [(PAUSE, 1), (PAUSE, 2)]\<rparr>)"
  by (simp add: no_listener_for_1_def live_def fresh_def echo_def publish_def caught_def)

text \<open>
  C3 fails for \<open>work_play\<close>: with \<open>echo_critical\<close> ending the command, a \<open>DeliveryFailed\<close>
  for the first target is caught and echoed, and the command exits there; nothing is
  published for the second target, which \<open>work_kill\<close> and \<open>work_pause\<close> go on to.
\<close>

theorem work_play_aborts_batch:
  "work_play True no_listener_for_1 [live 1, live 2] fresh =
     (SystemExit,
      \<lparr>echoed = [(Critical, ''failed to play Calculation<'', 1, ''>: no listener'')],
       published = [(PLAY, 1)]\<rparr>)"
  by (simp add: no_listener_for_1_def live_def fresh_def echo_def publish_def caught_def
      echo_critical_def)

end
